theory Spec2Isabelle
  imports Complex_Main "HOL-Library.AList" "HOL-Library.Monad_Syntax"
begin

section \<open>Numbers\<close>

text \<open>
  Every numeric value of the program is a JavaScript \<^verbatim>\<open>number\<close>, a double. The model
  takes the finite ones as exact reals: the rounding of the doubles is not represented,
  and NaN is not. Two things that exact arithmetic does not do by itself are written
  into the model where the program meets them.

  A division by zero gives the program an infinity or NaN, and HOL's \<open>x / 0\<close> is \<open>0\<close>:
  every division of the source goes through \<open>js_div\<close>, which has no result when the
  divisor is zero.

  A sum of finite weights can overflow: the largest double is \<open>2\<^sup>1\<^sup>0\<^sup>2\<^sup>4 - 2\<^sup>9\<^sup>7\<^sup>1\<close>, and
  an addition whose result reaches \<open>2\<^sup>1\<^sup>0\<^sup>2\<^sup>4 - 2\<^sup>9\<^sup>7\<^sup>0\<close> is rounded to \<^verbatim>\<open>Infinity\<close>.
  The row sums of the trust matrix are accumulated with \<open>js_add\<close>, in which \<open>None\<close>
  stands for \<^verbatim>\<open>Infinity\<close>; the summands there are clamped weights, which are finite and
  not negative, so the sum stays at \<^verbatim>\<open>Infinity\<close> once it is there.
\<close>

definition js_div :: "real \<Rightarrow> real \<Rightarrow> real option" where
  "js_div x y = (if y = 0 then None else Some (x / y))"

definition OVERFLOW :: real where
  "OVERFLOW = 2 ^ 1024 - 2 ^ 970"

definition js_add :: "real option \<Rightarrow> real \<Rightarrow> real option" where
  "js_add s x =
     (case s of
        None \<Rightarrow> None
      | Some v \<Rightarrow> if OVERFLOW \<le> v + x then None else Some (v + x))"

section \<open>Data model (src/types/index.ts)\<close>

record TrustEdge =
  from_addr :: string
  to_addr :: string
  weight :: real
  source :: string
  timestamp :: nat

record EigenTrustConfig =
  maxIterations :: real
  convergenceThreshold :: real
  preTrustedWeight :: real
  decayFactor :: real

text \<open>
  A \<^verbatim>\<open>Map<string, number>\<close> keeps its keys in insertion order: an association list,
  written with \<open>AList.update\<close> (replace the value of a present key in place, append an
  absent one) and read with \<open>map_of\<close>.
\<close>

record EigenTrustResult =
  scores :: "(string \<times> real) list"
  iterations :: nat
  converged :: bool

datatype TrustLevel = unknown | suspicious | low | moderate | high | very_high

text \<open>
  \<open>totalWeight\<close> is the result of a division: \<open>None\<close> stands for the NaN that a path
  without edges would get (\<open>0 / 0\<close>).
\<close>

record GraphPath =
  nodes :: "string list"
  edges :: "TrustEdge list"
  totalWeight :: "real option"
  hops :: nat

section \<open>The EigenTrust engine (src/core/eigentrust.ts)\<close>

definition DEFAULT_CONFIG :: EigenTrustConfig where
  "DEFAULT_CONFIG =
     \<lparr>maxIterations = 50, convergenceThreshold = 1 / 10000,
      preTrustedWeight = 1 / 10, decayFactor = 85 / 100\<rparr>"

text \<open>The constructor merges a partial configuration over the defaults.\<close>

record PartialConfig =
  maxIterations_opt :: "real option"
  convergenceThreshold_opt :: "real option"
  preTrustedWeight_opt :: "real option"
  decayFactor_opt :: "real option"

definition no_overrides :: PartialConfig where
  "no_overrides =
     \<lparr>maxIterations_opt = None, convergenceThreshold_opt = None,
      preTrustedWeight_opt = None, decayFactor_opt = None\<rparr>"

definition new_engine :: "PartialConfig \<Rightarrow> EigenTrustConfig" where
  "new_engine c =
     \<lparr>maxIterations = (case maxIterations_opt c of Some v \<Rightarrow> v
                        | None \<Rightarrow> maxIterations DEFAULT_CONFIG),
      convergenceThreshold = (case convergenceThreshold_opt c of Some v \<Rightarrow> v
                        | None \<Rightarrow> convergenceThreshold DEFAULT_CONFIG),
      preTrustedWeight = (case preTrustedWeight_opt c of Some v \<Rightarrow> v
                        | None \<Rightarrow> preTrustedWeight DEFAULT_CONFIG),
      decayFactor = (case decayFactor_opt c of Some v \<Rightarrow> v
                        | None \<Rightarrow> decayFactor DEFAULT_CONFIG)\<rparr>"

subsection \<open>Node collection and indexing\<close>

text \<open>\<^verbatim>\<open>Set.add\<close>: a \<^verbatim>\<open>Set\<close> iterates in insertion order and ignores a present element.\<close>

definition set_add :: "'a \<Rightarrow> 'a list \<Rightarrow> 'a list" where
  "set_add x xs = (if x \<in> set xs then xs else xs @ [x])"

definition collect_nodes :: "TrustEdge list \<Rightarrow> string list" where
  "collect_nodes es =
     fold (\<lambda>e nodeSet. set_add (to_addr e) (set_add (from_addr e) nodeSet)) es []"

definition build_index :: "string list \<Rightarrow> (string \<times> nat) list" where
  "build_index ns = fold (\<lambda>i nodeIndex. AList.update (ns ! i) i nodeIndex) [0..<length ns] []"

subsection \<open>buildNormalizedTrustMatrix\<close>

definition populate_edge :: "(string \<times> nat) list \<Rightarrow> TrustEdge \<Rightarrow> real list list \<Rightarrow> real list list" where
  "populate_edge nodeIndex e matrix =
     (case map_of nodeIndex (from_addr e) of
        None \<Rightarrow> matrix
      | Some i \<Rightarrow>
         (case map_of nodeIndex (to_addr e) of
            None \<Rightarrow> matrix
          | Some j \<Rightarrow>
              if i \<noteq> j then matrix[i := (matrix ! i)[j := max 0 (weight e)]]
              else matrix))"

definition populate :: "TrustEdge list \<Rightarrow> (string \<times> nat) list \<Rightarrow> nat \<Rightarrow> real list list" where
  "populate es nodeIndex n = fold (populate_edge nodeIndex) es (replicate n (replicate n 0))"

definition row_sum :: "real list \<Rightarrow> real option" where
  "row_sum row = fold (\<lambda>x rowSum. js_add rowSum x) row (Some 0)"

text \<open>
  When the row sum is \<^verbatim>\<open>Infinity\<close> the test \<^verbatim>\<open>rowSum > 0\<close> holds and every entry, being
  finite, is divided to \<open>0\<close>.
\<close>

definition normalize_row :: "nat \<Rightarrow> real list \<Rightarrow> real list option" where
  "normalize_row n row =
     (case row_sum row of
        None \<Rightarrow> Some (map (\<lambda>x. 0) row)
      | Some rowSum \<Rightarrow>
          if rowSum > 0 then those (map (\<lambda>x. js_div x rowSum) row)
          else do { uniform \<leftarrow> js_div 1 (real n); Some (replicate n uniform) })"

definition buildNormalizedTrustMatrix ::
  "TrustEdge list \<Rightarrow> string list \<Rightarrow> (string \<times> nat) list \<Rightarrow> real list list option" where
  "buildNormalizedTrustMatrix es ns nodeIndex =
     those (map (normalize_row (length ns)) (populate es nodeIndex (length ns)))"

subsection \<open>compute\<close>

text \<open>
  The pre-trusted set is a \<^verbatim>\<open>Set<string>\<close>: the list of its elements in iteration
  order, which has no duplicates; \<^verbatim>\<open>preTrusted.size\<close> is its length.
\<close>

definition pretrust_vector :: "nat \<Rightarrow> (string \<times> nat) list \<Rightarrow> string list \<Rightarrow> real list option" where
  "pretrust_vector n nodeIndex preTrusted =
     (if length preTrusted > 0 then
        do { preTrustValue \<leftarrow> js_div 1 (real (length preTrusted));
             Some (fold (\<lambda>addr p. case map_of nodeIndex addr of
                                     Some idx \<Rightarrow> p[idx := preTrustValue]
                                   | None \<Rightarrow> p)
                        preTrusted (replicate n 0)) }
      else
        do { uniform \<leftarrow> js_div 1 (real n); Some (replicate n uniform) })"

definition propagate :: "nat \<Rightarrow> real list list \<Rightarrow> real list \<Rightarrow> real \<Rightarrow> real list \<Rightarrow> real list" where
  "propagate n C p a t =
     map (\<lambda>j. (1 - a) * p ! j + a * fold (\<lambda>i sum. sum + C ! i ! j * t ! i) [0..<n] 0) [0..<n]"

definition l1_diff :: "nat \<Rightarrow> real list \<Rightarrow> real list \<Rightarrow> real" where
  "l1_diff n tNew t = fold (\<lambda>i diff. diff + \<bar>tNew ! i - t ! i\<bar>) [0..<n] 0"

function iterate ::
  "EigenTrustConfig \<Rightarrow> nat \<Rightarrow> real list list \<Rightarrow> real list \<Rightarrow> real list \<Rightarrow> nat
     \<Rightarrow> real list \<times> nat \<times> bool" where
  "iterate cfg n C p t its =
     (if real its < maxIterations cfg then
        (let tNew = propagate n C p (decayFactor cfg) t;
             diff = l1_diff n tNew t
         in if diff < convergenceThreshold cfg then (tNew, its + 1, True)
            else iterate cfg n C p tNew (its + 1))
      else (t, its, False))"
  by pat_completeness auto
termination
proof (relation "measure (\<lambda>(cfg, n, C, p, t, its). nat \<lceil>maxIterations cfg\<rceil> - its)")
  show "wf (measure (\<lambda>(cfg, n, C, p, t, its). nat \<lceil>maxIterations cfg\<rceil> - its))"
    by simp
next
  fix cfg :: EigenTrustConfig and n :: nat and C :: "real list list"
    and p t x :: "real list" and its :: nat and xa :: real
  assume "real its < maxIterations cfg"
  then have "its < nat \<lceil>maxIterations cfg\<rceil>"
    by linarith
  then show "((cfg, n, C, p, x, its + 1), (cfg, n, C, p, t, its))
               \<in> measure (\<lambda>(cfg, n, C, p, t, its). nat \<lceil>maxIterations cfg\<rceil> - its)"
    by simp
qed

declare iterate.simps [simp del]

definition package :: "string list \<Rightarrow> real list \<Rightarrow> (string \<times> real) list" where
  "package ns t = fold (\<lambda>i sc. AList.update (ns ! i) (t ! i) sc) [0..<length ns] []"

definition compute :: "EigenTrustConfig \<Rightarrow> TrustEdge list \<Rightarrow> string list \<Rightarrow> EigenTrustResult option" where
  "compute cfg es preTrusted =
     (let ns = collect_nodes es; n = length ns in
      if n = 0 then Some \<lparr>scores = [], iterations = 0, converged = True\<rparr>
      else
        (let nodeIndex = build_index ns in
         do { C \<leftarrow> buildNormalizedTrustMatrix es ns nodeIndex;
              p \<leftarrow> pretrust_vector n nodeIndex preTrusted;
              (case iterate cfg n C p p 0 of
                 (t, its, conv) \<Rightarrow>
                   Some \<lparr>scores = package ns t, iterations = its, converged = conv\<rparr>) }))"

text \<open>
  A string is the list of its code units, each below 256 (the type \<open>char\<close>): the ASCII
  and Latin-1 characters. \<^verbatim>\<open>String.prototype.toLowerCase\<close> changes, among these, the
  letters \<^verbatim>\<open>A\<close> to \<^verbatim>\<open>Z\<close> (65 to 90) and the Latin-1 capitals 192 to 222 other than
  the multiplication sign 215, each to the code unit 32 above it. Strings with higher
  code units are outside the type.
\<close>

definition lower_char :: "char \<Rightarrow> char" where
  "lower_char c =
     (let k = (of_char c :: nat) in
      if (65 \<le> k \<and> k \<le> 90) \<or> (192 \<le> k \<and> k \<le> 222 \<and> k \<noteq> 215) then char_of (k + 32)
      else c)"

definition toLowerCase :: "string \<Rightarrow> string" where
  "toLowerCase s = map lower_char s"

definition scoreFor :: "EigenTrustResult \<Rightarrow> string \<Rightarrow> real" where
  "scoreFor result address =
     (case map_of (scores result) (toLowerCase address) of Some v \<Rightarrow> v | None \<Rightarrow> 0)"

section \<open>Helpers (src/utils/helpers.ts)\<close>

definition scoreToLevel :: "real \<Rightarrow> TrustLevel" where
  "scoreToLevel score =
     (if score \<ge> 85 then very_high
      else if score \<ge> 70 then high
      else if score \<ge> 50 then moderate
      else if score \<ge> 30 then low
      else if score \<ge> 10 then suspicious
      else unknown)"

definition is_hex_char :: "char \<Rightarrow> bool" where
  "is_hex_char c =
     (let k = (of_char c :: nat) in
      (97 \<le> k \<and> k \<le> 102) \<or> (65 \<le> k \<and> k \<le> 70) \<or> (48 \<le> k \<and> k \<le> 57))"

text \<open>The regular expression \<^verbatim>\<open>/^0x[a-fA-F0-9]{40}$/\<close>.\<close>

definition isValidAddress :: "string \<Rightarrow> bool" where
  "isValidAddress address \<longleftrightarrow>
     length address = 42 \<and> take 2 address = ''0x'' \<and> list_all is_hex_char (drop 2 address)"

definition shortenAddress :: "string \<Rightarrow> string" where
  "shortenAddress address =
     (if \<not> isValidAddress address then address
      else take 6 address @ ''...'' @ drop (length address - 4) address)"

section \<open>The graph service (src/services/graph.service.ts)\<close>

text \<open>
  One record of the answer to the query of \<^verbatim>\<open>findTrustPath\<close>: the addresses of
  \<^verbatim>\<open>nodes(path)\<close> and, for each of \<^verbatim>\<open>relationships(path)\<close>, its weight, source and
  time stamp.
\<close>

record EdgeData =
  ed_weight :: real
  ed_source :: string
  ed_timestamp :: nat

record PathRecord =
  nodeAddresses :: "string list"
  edgeData :: "EdgeData list"

text \<open>
  The graph database is not part of the repository. A connected driver is what it
  answers to the \<^verbatim>\<open>shortestPath\<close> query: the records for the (lower-cased) start
  address, end address and the bound \<^verbatim>\<open>maxHops\<close> written into the pattern
  \<^verbatim>\<open>[:TRUSTS*1..maxHops]\<close>, which is a count (the pattern takes no other number). The
  service holds no driver before \<^verbatim>\<open>connect\<close>, and \<^verbatim>\<open>getSession\<close> throws then.
\<close>

type_synonym Driver = "string \<Rightarrow> string \<Rightarrow> nat \<Rightarrow> PathRecord list"

datatype error = NotConnected

definition getSession :: "Driver option \<Rightarrow> error + Driver" where
  "getSession driver = (case driver of None \<Rightarrow> Inl NotConnected | Some d \<Rightarrow> Inr d)"

definition findTrustPath :: "Driver option \<Rightarrow> string \<Rightarrow> string \<Rightarrow> nat \<Rightarrow> error + GraphPath option" where
  "findTrustPath driver from to maxHops =
     (case getSession driver of
        Inl e \<Rightarrow> Inl e
      | Inr session \<Rightarrow>
          (let records = session (toLowerCase from) (toLowerCase to) maxHops in
           if length records = 0 then Inr None
           else
             (let record = records ! 0;
                  es = map (\<lambda>(e, i).
                              \<lparr>from_addr = nodeAddresses record ! i,
                               to_addr = nodeAddresses record ! (i + 1),
                               weight = ed_weight e, source = ed_source e,
                               timestamp = ed_timestamp e\<rparr>)
                           (zip (edgeData record) [0..<length (edgeData record)]);
                  total = js_div (fold (\<lambda>e sum. sum + weight e) es 0) (real (length es))
              in Inr (Some \<lparr>nodes = nodeAddresses record, edges = es,
                             totalWeight = total, hops = length es\<rparr>))))"

section \<open>The trust path tool (class TrustPathTool)\<close>

text \<open>
  The explanation is a text; the model keeps which of the four texts it is and what it
  is made from.
\<close>

datatype Explanation =
    InvalidAddresses
  | SameAddresses
  | NoPathFound string string nat
  | PathExplained GraphPath

record PathResult =
  path :: "GraphPath option"
  explanation :: Explanation

definition findPath :: "Driver option \<Rightarrow> string \<Rightarrow> string \<Rightarrow> nat \<Rightarrow> error + PathResult" where
  "findPath graph from to maxHops =
     (if \<not> isValidAddress from \<or> \<not> isValidAddress to then
        Inr \<lparr>path = None, explanation = InvalidAddresses\<rparr>
      else if toLowerCase from = toLowerCase to then
        Inr \<lparr>path = None, explanation = SameAddresses\<rparr>
      else
        (case findTrustPath graph from to maxHops of
           Inl e \<Rightarrow> Inl e
         | Inr None \<Rightarrow>
             Inr \<lparr>path = None,
                  explanation = NoPathFound (shortenAddress from) (shortenAddress to) maxHops\<rparr>
         | Inr (Some p) \<Rightarrow> Inr \<lparr>path = Some p, explanation = PathExplained p\<rparr>))"

section \<open>The shortest-path query of the graph database\<close>

text \<open>
  The graph database (Neo4j) is not part of the repository. Its answer to the query of
  \<^verbatim>\<open>findTrustPath\<close>,
  \<^verbatim>\<open>shortestPath((a {address: $from})-[:TRUSTS*1..maxHops]->(b {address: $to}))\<close>,
  is modelled from the spec: a shortest-path search by hop count over the directed graph
  of trust edges, forward direction only, within \<open>maxHops\<close>, with no result when no
  such path exists. The database is the list of its trust edges.
\<close>

text \<open>
  Modelled from the spec: the directed walks of \<open>k\<close> trust edges that start at \<open>a\<close>
  (the matches of the query's pattern with \<open>k\<close> relationships), missing with the
  database.
\<close>

fun walks :: "TrustEdge list \<Rightarrow> nat \<Rightarrow> string \<Rightarrow> TrustEdge list list" where
  "walks g 0 a = [[]]"
| "walks g (Suc k) a =
     concat (map (\<lambda>e. map (\<lambda>w. e # w) (walks g k (to_addr e)))
                 (filter (\<lambda>e. from_addr e = a) g))"

text \<open>Modelled from the spec: the node a walk from \<open>a\<close> ends in, missing with the database.\<close>

definition walk_end :: "string \<Rightarrow> TrustEdge list \<Rightarrow> string" where
  "walk_end a w = (if w = [] then a else to_addr (last w))"

text \<open>
  Modelled from the spec: the shortest-path search of the database, missing from the
  repository: a walk from \<open>a\<close> to \<open>b\<close> of the fewest edges, at least one and at most
  \<open>maxHops\<close>.
\<close>

definition shortest_walk :: "TrustEdge list \<Rightarrow> string \<Rightarrow> string \<Rightarrow> nat \<Rightarrow> TrustEdge list option" where
  "shortest_walk g a b maxHops =
     (case concat (map (\<lambda>k. filter (\<lambda>w. walk_end a w = b) (walks g k a)) [1..<Suc maxHops]) of
        [] \<Rightarrow> None
      | w # _ \<Rightarrow> Some w)"

text \<open>
  Modelled from the spec: the records the database returns for the query, missing from
  the repository: none without a path, otherwise one, with the addresses of the nodes of
  the shortest path and the data of its relationships.
\<close>

definition shortestPath_query :: "TrustEdge list \<Rightarrow> Driver" where
  "shortestPath_query g a b maxHops =
     (case shortest_walk g a b maxHops of
        None \<Rightarrow> []
      | Some w \<Rightarrow>
          [\<lparr>nodeAddresses = a # map to_addr w,
            edgeData = map (\<lambda>e. \<lparr>ed_weight = weight e, ed_source = source e,
                                  ed_timestamp = timestamp e\<rparr>) w\<rparr>])"

section \<open>Inputs of the engine's test suite\<close>

text \<open>The tests build their edges with \<^verbatim>\<open>makeEdge\<close>; the time stamp plays no role.\<close>

definition makeEdge :: "string \<Rightarrow> string \<Rightarrow> real \<Rightarrow> TrustEdge" where
  "makeEdge a b w = \<lparr>from_addr = a, to_addr = b, weight = w, source = ''test'', timestamp = 0\<rparr>"

text \<open>A finite weight near the top of the range of the doubles, \<^verbatim>\<open>1e308\<close>.\<close>

definition weight_1e308 :: real where
  "weight_1e308 = 10 ^ 308"

section \<open>Notions used to state the properties\<close>

text \<open>An \<open>n\<close> by \<open>n\<close> matrix, as a list of rows.\<close>

definition is_matrix :: "nat \<Rightarrow> real list list \<Rightarrow> bool" where
  "is_matrix n m \<longleftrightarrow> length m = n \<and> (\<forall>row \<in> set m. length row = n)"

text \<open>A matrix each of whose rows sums to one.\<close>

definition row_stochastic :: "nat \<Rightarrow> real list list \<Rightarrow> bool" where
  "row_stochastic n m \<longleftrightarrow> is_matrix n m \<and> (\<forall>row \<in> set m. sum_list row = 1)"

text \<open>A matrix without negative entries each of whose rows sums to at most one.\<close>

definition sub_stochastic :: "nat \<Rightarrow> real list list \<Rightarrow> bool" where
  "sub_stochastic n m \<longleftrightarrow>
     is_matrix n m \<and> list_all (\<lambda>row. list_all (\<lambda>x. 0 \<le> x) row \<and> sum_list row \<le> 1) m"

text \<open>What normalisation makes of a row of clamped weights, written with exact sums.\<close>

definition normalized_row :: "nat \<Rightarrow> real list \<Rightarrow> real list" where
  "normalized_row n row =
     (if OVERFLOW \<le> sum_list row then map (\<lambda>x. 0) row
      else if 0 < sum_list row then map (\<lambda>x. x / sum_list row) row
      else replicate n (1 / real n))"

text \<open>No row sum of the raw matrix of the edge list overflows.\<close>

definition no_overflow :: "TrustEdge list \<Rightarrow> bool" where
  "no_overflow es \<longleftrightarrow>
     list_all (\<lambda>row. row_sum row \<noteq> None)
       (populate es (build_index (collect_nodes es)) (length (collect_nodes es)))"

text \<open>
  The edge from \<open>a\<close> to \<open>b\<close> that decides the matrix entry: the edge list may hold several
  (one per source of the signal), and the last one in the list is the one whose weight
  stays in the matrix.
\<close>

definition last_edge :: "TrustEdge list \<Rightarrow> string \<Rightarrow> string \<Rightarrow> TrustEdge option" where
  "last_edge es a b = find (\<lambda>e. from_addr e = a \<and> to_addr e = b) (rev es)"

definition clamped_weight :: "TrustEdge list \<Rightarrow> string \<Rightarrow> string \<Rightarrow> real" where
  "clamped_weight es a b =
     (case last_edge es a b of None \<Rightarrow> 0 | Some e \<Rightarrow> max 0 (weight e))"



text \<open>The \<open>k\<close>-th iterate \<open>t\<^sub>k\<close> of the propagation, from \<open>t\<^sub>0 = p\<close>.\<close>

definition iterate_k :: "nat \<Rightarrow> real list list \<Rightarrow> real list \<Rightarrow> real \<Rightarrow> nat \<Rightarrow> real list" where
  "iterate_k n C p a k = ((propagate n C p a) ^^ k) p"

text \<open>A directed trust path of \<open>k\<close> edges from \<open>a\<close> to \<open>b\<close> in the graph \<open>g\<close>.\<close>

fun trust_path :: "TrustEdge list \<Rightarrow> string \<Rightarrow> nat \<Rightarrow> string \<Rightarrow> bool" where
  "trust_path g a 0 b \<longleftrightarrow> a = b"
| "trust_path g a (Suc k) b \<longleftrightarrow> (\<exists>e \<in> set g. from_addr e = a \<and> trust_path g (to_addr e) k b)"


section \<open>Facts about the engine\<close>

subsection \<open>Node set and index\<close>

lemma set_set_add: "set (set_add x xs) = insert x (set xs)"
  by (auto simp: set_add_def)

lemma distinct_set_add: "distinct xs \<Longrightarrow> distinct (set_add x xs)"
  by (simp add: set_add_def)

lemma collect_fold_distinct:
  "distinct acc \<Longrightarrow>
   distinct (fold (\<lambda>e nodeSet. set_add (to_addr e) (set_add (from_addr e) nodeSet)) es acc)"
  by (induction es arbitrary: acc) (simp_all add: distinct_set_add)

lemma collect_fold_set:
  "set (fold (\<lambda>e nodeSet. set_add (to_addr e) (set_add (from_addr e) nodeSet)) es acc)
     = set acc \<union> from_addr ` set es \<union> to_addr ` set es"
  by (induction es arbitrary: acc) (auto simp: set_set_add)

lemma distinct_collect_nodes: "distinct (collect_nodes es)"
  by (simp add: collect_nodes_def collect_fold_distinct)

lemma set_collect_nodes: "set (collect_nodes es) = from_addr ` set es \<union> to_addr ` set es"
  by (simp add: collect_nodes_def collect_fold_set)

lemma collect_nodes_Nil_iff: "collect_nodes es = [] \<longleftrightarrow> es = []"
proof
  assume "collect_nodes es = []"
  then have "set (collect_nodes es) = {}" by simp
  then show "es = []" by (simp add: set_collect_nodes)
qed (simp add: collect_nodes_def)

lemma update_fresh: "k \<notin> fst ` set al \<Longrightarrow> AList.update k v al = al @ [(k, v)]"
  by (induction al) auto

lemma fold_update_zip:
  "distinct ns \<Longrightarrow> k \<le> length ns \<Longrightarrow>
   fold (\<lambda>i m. AList.update (ns ! i) (f i) m) [0..<k] [] = zip (take k ns) (map f [0..<k])"
proof (induction k)
  case 0
  then show ?case by simp
next
  case (Suc k)
  then have k: "k < length ns" by simp
  have fresh: "ns ! k \<notin> fst ` set (zip (take k ns) (map f [0..<k]))"
  proof
    assume "ns ! k \<in> fst ` set (zip (take k ns) (map f [0..<k]))"
    then have "ns ! k \<in> set (take k ns)"
      by (auto dest: set_zip_leftD)
    then obtain i where "i < k" "ns ! i = ns ! k"
      using k by (auto simp: in_set_conv_nth)
    with Suc.prems(1) k show False
      by (simp add: nth_eq_iff_index_eq)
  qed
  have "take (Suc k) ns = take k ns @ [ns ! k]"
    using k by (simp add: take_Suc_conv_app_nth)
  with Suc fresh show ?case
    by (simp add: update_fresh)
qed

lemma build_index_zip: "distinct ns \<Longrightarrow> build_index ns = zip ns [0..<length ns]"
  using fold_update_zip [of ns "length ns" "\<lambda>i. i"] by (simp add: build_index_def)


lemma build_index_Some_iff:
  assumes "distinct ns"
  shows "map_of (build_index ns) a = Some i \<longleftrightarrow> i < length ns \<and> ns ! i = a"
proof
  assume "map_of (build_index ns) a = Some i"
  then have "(a, i) \<in> set (zip ns [0..<length ns])"
    using assms by (auto simp: build_index_zip dest: map_of_SomeD)
  then show "i < length ns \<and> ns ! i = a"
    by (auto simp: set_zip)
next
  assume "i < length ns \<and> ns ! i = a"
  then show "map_of (build_index ns) a = Some i"
    using assms map_of_zip_nth [of ns "[0..<length ns]" i]
    by (auto simp: build_index_zip)
qed

lemma build_index_None_iff:
  assumes "distinct ns"
  shows "map_of (build_index ns) a = None \<longleftrightarrow> a \<notin> set ns"
proof -
  have "map fst (zip ns [0..<length ns]) = ns"
    by simp
  then have "fst ` set (zip ns [0..<length ns]) = set ns"
    using set_map [of fst "zip ns [0..<length ns]"] by simp
  then show ?thesis
    using assms by (simp add: build_index_zip map_of_eq_None_iff)
qed

subsection \<open>The raw matrix\<close>

lemma is_matrix_zero: "is_matrix n (replicate n (replicate n 0))"
  by (simp add: is_matrix_def)

lemma is_matrix_update:
  assumes "is_matrix n m" "length r = n"
  shows "is_matrix n (m[i := r])"
proof -
  have "set (m[i := r]) \<subseteq> insert r (set m)"
    by (rule set_update_subset_insert)
  with assms show ?thesis
    by (auto simp: is_matrix_def)
qed

lemma is_matrix_row: "is_matrix n m \<Longrightarrow> i < n \<Longrightarrow> length (m ! i) = n"
  by (simp add: is_matrix_def)

lemma is_matrix_populate_edge:
  assumes "is_matrix n m" "distinct ns" "n = length ns"
  shows "is_matrix n (populate_edge (build_index ns) e m)"
proof (cases "map_of (build_index ns) (from_addr e)")
  case None
  then show ?thesis using assms by (simp add: populate_edge_def)
next
  case (Some i)
  then have "i < n"
    using assms by (simp add: build_index_Some_iff)
  then have "length ((m ! i)[j := w]) = n" for j w
    using assms(1) by (simp add: is_matrix_row)
  then show ?thesis
    using Some assms(1) by (auto simp: populate_edge_def is_matrix_update split: option.splits)
qed

lemma populate_edge_nth:
  assumes "is_matrix n m" "distinct ns" "n = length ns" "i < n" "j < n"
  shows "populate_edge (build_index ns) e m ! i ! j =
           (if from_addr e = ns ! i \<and> to_addr e = ns ! j \<and> i \<noteq> j then max 0 (weight e)
            else m ! i ! j)"
proof (cases "map_of (build_index ns) (from_addr e)")
  case None
  then have "from_addr e \<notin> set ns"
    using assms(2) by (simp add: build_index_None_iff)
  then have "from_addr e \<noteq> ns ! i"
    using assms(3,4) by auto
  with None show ?thesis by (simp add: populate_edge_def)
next
  case fromSome: (Some i')
  then have i': "i' < n" "ns ! i' = from_addr e"
    using assms(2,3) by (simp_all add: build_index_Some_iff)
  show ?thesis
  proof (cases "map_of (build_index ns) (to_addr e)")
    case None
    then have "to_addr e \<notin> set ns"
      using assms(2) by (simp add: build_index_None_iff)
    then have "to_addr e \<noteq> ns ! j"
      using assms(3,5) by auto
    with None fromSome show ?thesis by (simp add: populate_edge_def)
  next
    case toSome: (Some j')
    then have j': "j' < n" "ns ! j' = to_addr e"
      using assms(2,3) by (simp_all add: build_index_Some_iff)
    have fi: "from_addr e = ns ! i \<longleftrightarrow> i' = i"
      using i' assms(2,3,4) by (auto simp: nth_eq_iff_index_eq)
    have tj: "to_addr e = ns ! j \<longleftrightarrow> j' = j"
      using j' assms(2,3,5) by (auto simp: nth_eq_iff_index_eq)
    have len: "length m = n" "length (m ! i') = n"
      using assms(1) i' by (simp_all add: is_matrix_def)
    show ?thesis
    proof (cases "i' = j'")
      case True
      then show ?thesis
        using fromSome toSome fi tj by (auto simp: populate_edge_def)
    next
      case False
      then have "populate_edge (build_index ns) e m = m[i' := (m ! i')[j' := max 0 (weight e)]]"
        using fromSome toSome by (simp add: populate_edge_def)
      then show ?thesis
        using False fi tj len i' j' assms(4,5) by (auto simp: nth_list_update)
    qed
  qed
qed

lemma is_matrix_populate:
  assumes "distinct ns" "n = length ns"
  shows "is_matrix n (populate es (build_index ns) n)"
proof -
  have "is_matrix n m \<Longrightarrow> is_matrix n (fold (populate_edge (build_index ns)) es m)" for m
    by (induction es arbitrary: m) (simp_all add: is_matrix_populate_edge assms)
  then show ?thesis
    by (simp add: populate_def is_matrix_zero)
qed

lemma populate_snoc:
  "populate (es @ [e]) nodeIndex n = populate_edge nodeIndex e (populate es nodeIndex n)"
  by (simp add: populate_def)

lemma last_edge_snoc:
  "last_edge (es @ [e]) a b =
     (if from_addr e = a \<and> to_addr e = b then Some e else last_edge es a b)"
  by (simp add: last_edge_def)

lemma populate_nth:
  assumes "distinct ns" "n = length ns" "i < n" "j < n"
  shows "populate es (build_index ns) n ! i ! j =
           (if i = j then 0 else clamped_weight es (ns ! i) (ns ! j))"
proof (induction es rule: rev_induct)
  case Nil
  show ?case
    using assms by (simp add: populate_def clamped_weight_def last_edge_def)
next
  case (snoc e es)
  have "is_matrix n (populate es (build_index ns) n)"
    using assms(1,2) by (rule is_matrix_populate)
  from populate_edge_nth [OF this assms, of e]
  have step: "populate (es @ [e]) (build_index ns) n ! i ! j =
           (if from_addr e = ns ! i \<and> to_addr e = ns ! j \<and> i \<noteq> j then max 0 (weight e)
            else populate es (build_index ns) n ! i ! j)"
    by (simp add: populate_snoc)
  show ?case
  proof (cases "i = j")
    case True
    with step snoc show ?thesis by simp
  next
    case False
    with step snoc show ?thesis
      by (simp add: clamped_weight_def last_edge_snoc)
  qed
qed

lemma populate_nonneg:
  assumes "distinct ns" "n = length ns" "i < n" "j < n"
  shows "0 \<le> populate es (build_index ns) n ! i ! j"
  using populate_nth [OF assms, of es]
  by (simp add: clamped_weight_def split: option.splits)

subsection \<open>Normalisation\<close>

lemma those_map_Some:
  "(\<And>x. x \<in> set xs \<Longrightarrow> f x = Some (g x)) \<Longrightarrow> those (map f xs) = Some (map g xs)"
  by (induction xs) simp_all

lemma fold_plus_sum_list:
  fixes f :: "'a \<Rightarrow> real"
  shows "fold (\<lambda>x s. s + f x) xs a = a + sum_list (map f xs)"
  by (induction xs arbitrary: a) simp_all

text \<open>The overflow bound as a numeral, for evaluation.\<close>

lemma OVERFLOW_value [code]:
  "OVERFLOW = 179769313486231580793728971405303415079934132710037826936173778980444968292764750946649017977587207096330286416692887910946555547851940402630657488671505820681908902000708383676273854845817711531764475730270069855571366959622842914819860834936475292719074168444365510704342711559699508093042880177904174497792"
  unfolding OVERFLOW_def by simp

lemma weight_1e308_value [code]:
  "weight_1e308 = 100000000000000000000000000000000000000000000000000000000000000000000000000000000000000000000000000000000000000000000000000000000000000000000000000000000000000000000000000000000000000000000000000000000000000000000000000000000000000000000000000000000000000000000000000000000000000000000000000000000000000000000"
  unfolding weight_1e308_def by simp

lemma OVERFLOW_pos: "0 < OVERFLOW"
  by (simp add: OVERFLOW_value)

lemma fold_js_add_None: "fold (\<lambda>x s. js_add s x) xs None = None"
  by (induction xs) (simp_all add: js_add_def)

lemma fold_js_add_Some:
  "(\<forall>x \<in> set xs. 0 \<le> x) \<Longrightarrow> v < OVERFLOW \<Longrightarrow>
   fold (\<lambda>x s. js_add s x) xs (Some v)
     = (if OVERFLOW \<le> v + sum_list xs then None else Some (v + sum_list xs))"
proof (induction xs arbitrary: v)
  case Nil
  then show ?case by simp
next
  case (Cons x xs)
  have rest: "0 \<le> sum_list xs"
    using Cons.prems by (simp add: sum_list_nonneg)
  show ?case
  proof (cases "OVERFLOW \<le> v + x")
    case True
    then have "OVERFLOW \<le> v + (x + sum_list xs)"
      using rest by linarith
    moreover from True have "js_add (Some v) x = None"
      by (simp add: js_add_def)
    ultimately show ?thesis
      by (simp add: fold_js_add_None)
  next
    case False
    then have "fold (\<lambda>x s. js_add s x) (x # xs) (Some v)
                 = fold (\<lambda>x s. js_add s x) xs (Some (v + x))"
      by (simp add: js_add_def)
    also have "\<dots> = (if OVERFLOW \<le> (v + x) + sum_list xs then None
                      else Some ((v + x) + sum_list xs))"
      using Cons.prems False by (intro Cons.IH) simp_all
    finally show ?thesis
      by (simp add: add.assoc)
  qed
qed

text \<open>The accumulated sum of a row without negative entries.\<close>

lemma row_sum_nonneg:
  assumes "\<forall>x \<in> set row. 0 \<le> x"
  shows "row_sum row = (if OVERFLOW \<le> sum_list row then None else Some (sum_list row))"
  using fold_js_add_Some [OF assms OVERFLOW_pos] by (simp add: row_sum_def)

text \<open>What a row becomes, written without the partial operations.\<close>

lemma normalize_row_Some:
  assumes "0 < n" and "\<forall>x \<in> set row. 0 \<le> x"
  shows "normalize_row n row = Some (normalized_row n row)"
proof (cases "OVERFLOW \<le> sum_list row")
  case True
  then show ?thesis
    by (simp add: normalize_row_def normalized_row_def row_sum_nonneg [OF assms(2)])
next
  case fin: False
  show ?thesis
  proof (cases "0 < sum_list row")
    case True
    then have "those (map (\<lambda>x. js_div x (sum_list row)) row)
                 = Some (map (\<lambda>x. x / sum_list row) row)"
      by (intro those_map_Some) (simp add: js_div_def)
    with True fin show ?thesis
      by (simp add: normalize_row_def normalized_row_def row_sum_nonneg [OF assms(2)])
  next
    case False
    with assms(1) fin show ?thesis
      by (simp add: normalize_row_def normalized_row_def row_sum_nonneg [OF assms(2)] js_div_def)
  qed
qed

lemma populate_row_nonneg:
  assumes "distinct ns" "row \<in> set (populate es (build_index ns) (length ns))" "x \<in> set row"
  shows "0 \<le> x"
proof -
  have m: "is_matrix (length ns) (populate es (build_index ns) (length ns))"
    using assms(1) by (simp add: is_matrix_populate)
  from assms(2) obtain i where i: "i < length ns" "row = populate es (build_index ns) (length ns) ! i"
    using m by (auto simp: in_set_conv_nth is_matrix_def)
  then have "length row = length ns"
    using m by (simp add: is_matrix_row)
  with assms(3) obtain j where "j < length ns" "x = row ! j"
    by (auto simp: in_set_conv_nth)
  with i populate_nonneg [OF assms(1) refl, of i j es] show ?thesis
    by simp
qed

lemma buildNormalizedTrustMatrix_Some:
  assumes "distinct ns"
  shows "buildNormalizedTrustMatrix es ns (build_index ns) =
           Some (map (normalized_row (length ns)) (populate es (build_index ns) (length ns)))"
proof -
  have m: "is_matrix (length ns) (populate es (build_index ns) (length ns))"
    using assms by (simp add: is_matrix_populate)
  show ?thesis
    unfolding buildNormalizedTrustMatrix_def
  proof (rule those_map_Some)
    fix row assume row: "row \<in> set (populate es (build_index ns) (length ns))"
    then have "0 < length ns"
      using m by (cases ns) (auto simp: is_matrix_def)
    moreover have "\<forall>x \<in> set row. 0 \<le> x"
      using populate_row_nonneg [OF assms row] by blast
    ultimately show "normalize_row (length ns) row = Some (normalized_row (length ns) row)"
      by (rule normalize_row_Some)
  qed
qed

lemma sum_list_divide:
  fixes xs :: "real list"
  shows "sum_list (map (\<lambda>x. x / c) xs) = sum_list xs / c"
  by (induction xs) (simp_all add: add_divide_distrib)

lemma sum_list_zeros: "sum_list (map (\<lambda>x. 0 :: real) xs) = 0"
  by (induction xs) simp_all

lemma length_normalized_row: "length row = n \<Longrightarrow> length (normalized_row n row) = n"
  by (simp add: normalized_row_def)

lemma normalized_row_sum:
  assumes "0 < n" "sum_list row < OVERFLOW"
  shows "sum_list (normalized_row n row) = 1"
  using assms by (simp add: normalized_row_def sum_list_divide sum_list_replicate)

lemma normalized_row_sum_le:
  assumes "0 < n"
  shows "sum_list (normalized_row n row) \<le> 1"
  using assms
  by (simp add: normalized_row_def sum_list_divide sum_list_replicate sum_list_zeros)

lemma normalized_row_nonneg:
  assumes "\<forall>x \<in> set row. 0 \<le> x" "y \<in> set (normalized_row n row)"
  shows "0 \<le> y"
proof -
  have "0 \<le> sum_list row"
    using assms(1) by (simp add: sum_list_nonneg)
  with assms show ?thesis
    by (auto simp: normalized_row_def split: if_splits)
qed

lemma no_overflow_iff:
  assumes "distinct ns" "ns = collect_nodes es"
  shows "no_overflow es \<longleftrightarrow>
           (\<forall>row \<in> set (populate es (build_index ns) (length ns)). sum_list row < OVERFLOW)"
proof -
  have "row_sum row \<noteq> None \<longleftrightarrow> sum_list row < OVERFLOW"
    if "row \<in> set (populate es (build_index ns) (length ns))" for row
  proof -
    have "\<forall>x \<in> set row. 0 \<le> x"
      using populate_row_nonneg [OF assms(1) that] by blast
    then show ?thesis
      by (simp add: row_sum_nonneg not_le)
  qed
  then show ?thesis
    unfolding no_overflow_def list_all_iff assms(2) [symmetric] by blast
qed

lemma sub_stochastic_build:
  assumes "distinct ns" "buildNormalizedTrustMatrix es ns (build_index ns) = Some C"
  shows "sub_stochastic (length ns) C"
proof -
  let ?n = "length ns"
  let ?raw = "populate es (build_index ns) ?n"
  have C: "C = map (normalized_row ?n) ?raw"
    using assms buildNormalizedTrustMatrix_Some [OF assms(1), of es] by simp
  have m: "is_matrix ?n ?raw"
    using assms(1) by (simp add: is_matrix_populate)
  have "length r = ?n \<and> (\<forall>y \<in> set r. 0 \<le> y) \<and> sum_list r \<le> 1" if "r \<in> set C" for r
  proof -
    from that obtain row where row: "row \<in> set ?raw" "r = normalized_row ?n row"
      unfolding C by auto
    have "length row = ?n" using m row(1) by (simp add: is_matrix_def)
    moreover have "0 < ?n" using m row(1) by (cases ns) (auto simp: is_matrix_def)
    moreover have "\<forall>x \<in> set row. 0 \<le> x"
      using populate_row_nonneg [OF assms(1) row(1)] by blast
    ultimately show ?thesis
      unfolding row(2)
      using length_normalized_row [of row ?n] normalized_row_sum_le [of ?n row]
        normalized_row_nonneg [of row _ ?n] by blast
  qed
  moreover have "length C = ?n"
    using m by (simp add: C is_matrix_def)
  ultimately show ?thesis
    by (simp add: sub_stochastic_def is_matrix_def list_all_iff)
qed

lemma row_stochastic_build:
  assumes "distinct ns" "buildNormalizedTrustMatrix es ns (build_index ns) = Some C"
    and "\<forall>row \<in> set (populate es (build_index ns) (length ns)). sum_list row < OVERFLOW"
  shows "row_stochastic (length ns) C"
proof -
  let ?n = "length ns"
  let ?raw = "populate es (build_index ns) ?n"
  have C: "C = map (normalized_row ?n) ?raw"
    using assms buildNormalizedTrustMatrix_Some [OF assms(1), of es] by simp
  have m: "is_matrix ?n ?raw"
    using assms(1) by (simp add: is_matrix_populate)
  have "length r = ?n \<and> sum_list r = 1" if "r \<in> set C" for r
  proof -
    from that obtain row where row: "row \<in> set ?raw" "r = normalized_row ?n row"
      unfolding C by auto
    have "length row = ?n" using m row(1) by (simp add: is_matrix_def)
    moreover have "0 < ?n" using m row(1) by (cases ns) (auto simp: is_matrix_def)
    moreover have "sum_list row < OVERFLOW" using assms(3) row(1) by blast
    ultimately show ?thesis
      unfolding row(2)
      using length_normalized_row [of row ?n] normalized_row_sum [of ?n row] by blast
  qed
  moreover have "length C = ?n"
    using m by (simp add: C is_matrix_def)
  ultimately show ?thesis
    by (simp add: row_stochastic_def is_matrix_def)
qed

subsection \<open>The mass moved by one propagation step\<close>


lemma propagate_nth:
  "j < n \<Longrightarrow> propagate n C p a t ! j = (1 - a) * p ! j + a * (\<Sum>i<n. C ! i ! j * t ! i)"
  by (simp add: propagate_def fold_plus_sum_list interv_sum_list_conv_sum_set_nat
      atLeast0LessThan)

lemma l1_diff_sum: "l1_diff n tNew t = (\<Sum>i<n. \<bar>tNew ! i - t ! i\<bar>)"
  by (simp add: l1_diff_def fold_plus_sum_list interv_sum_list_conv_sum_set_nat
      atLeast0LessThan)







subsection \<open>The loop\<close>



subsection \<open>The pre-trust vector\<close>

lemma pretrust_fold:
  assumes "distinct ns"
  shows "length p0 = length ns \<Longrightarrow>
         length (fold (\<lambda>addr p. case map_of (build_index ns) addr of
                                  Some idx \<Rightarrow> p[idx := v] | None \<Rightarrow> p) pt p0) = length ns
         \<and> (\<forall>j<length ns.
               fold (\<lambda>addr p. case map_of (build_index ns) addr of
                                 Some idx \<Rightarrow> p[idx := v] | None \<Rightarrow> p) pt p0 ! j
               = (if ns ! j \<in> set pt then v else p0 ! j))"
proof (induction pt arbitrary: p0)
  case Nil
  then show ?case by simp
next
  case (Cons addr pt)
  let ?p1 = "case map_of (build_index ns) addr of Some idx \<Rightarrow> p0[idx := v] | None \<Rightarrow> p0"
  have len: "length ?p1 = length ns"
    using Cons.prems by (simp split: option.splits)
  have p1: "?p1 ! j = (if ns ! j = addr then v else p0 ! j)" if "j < length ns" for j
  proof (cases "map_of (build_index ns) addr")
    case None
    then have "addr \<notin> set ns"
      using assms by (simp add: build_index_None_iff)
    then have "ns ! j \<noteq> addr"
      using that by auto
    with None show ?thesis by simp
  next
    case (Some idx)
    then have idx: "idx < length ns" "ns ! idx = addr"
      using assms by (simp_all add: build_index_Some_iff)
    then have "ns ! j = addr \<longleftrightarrow> j = idx"
      using assms that by (auto simp: nth_eq_iff_index_eq)
    with Some idx Cons.prems that show ?thesis
      by (simp add: nth_list_update)
  qed
  from Cons.IH [OF len] p1 show ?case
    by auto
qed





lemma pretrust_vector_nonempty:
  assumes "distinct ns" "pt \<noteq> []"
  shows "\<exists>p. pretrust_vector (length ns) (build_index ns) pt = Some p \<and> length p = length ns
           \<and> p = map (\<lambda>x. if x \<in> set pt then 1 / real (length pt) else 0) ns"
proof -
  let ?v = "1 / real (length pt)"
  let ?p = "fold (\<lambda>addr p. case map_of (build_index ns) addr of
                              Some idx \<Rightarrow> p[idx := ?v] | None \<Rightarrow> p) pt (replicate (length ns) 0)"
  have eq: "pretrust_vector (length ns) (build_index ns) pt = Some ?p"
    using assms(2) by (simp add: pretrust_vector_def js_div_def)
  from pretrust_fold [OF assms(1), of "replicate (length ns) 0" ?v pt]
  have len: "length ?p = length ns"
    and nth: "\<forall>j<length ns. ?p ! j = (if ns ! j \<in> set pt then ?v else 0)"
    by simp_all
  have "?p = map (\<lambda>x. if x \<in> set pt then ?v else 0) ns"
    using len nth by (intro nth_equalityI) simp_all
  with eq len show ?thesis by simp
qed

lemma pretrust_vector_empty:
  assumes "0 < n"
  shows "pretrust_vector n nodeIndex [] = Some (replicate n (1 / real n))"
  using assms by (simp add: pretrust_vector_def js_div_def)

lemma pretrust_vector_total:
  assumes "distinct ns" "ns \<noteq> []"
  shows "\<exists>p. pretrust_vector (length ns) (build_index ns) pt = Some p \<and> length p = length ns"
proof (cases "pt = []")
  case True
  with assms(2) show ?thesis
    by (simp add: pretrust_vector_empty)
next
  case False
  with pretrust_vector_nonempty [OF assms(1)] show ?thesis
    by blast
qed


subsection \<open>The score map\<close>


lemma pretrust_vector_nonneg:
  assumes "distinct ns" "ns \<noteq> []"
    and "pretrust_vector (length ns) (build_index ns) pt = Some p"
  shows "\<forall>x \<in> set p. 0 \<le> x"
proof (cases "pt = []")
  case True
  with assms show ?thesis
    by (auto simp: pretrust_vector_empty)
next
  case False
  with pretrust_vector_nonempty [OF assms(1), of pt] assms(3)
  have "p = map (\<lambda>x. if x \<in> set pt then 1 / real (length pt) else 0) ns"
    by simp
  then show ?thesis by auto
qed

subsection \<open>The run of compute on a non-empty edge list\<close>

text \<open>
  On a non-empty edge list \<open>compute\<close> has a result, made of the matrix, the pre-trust
  vector and the outcome of the loop.
\<close>

lemma compute_nonempty:
  assumes "es \<noteq> []"
  shows "\<exists>C p t its conv.
           buildNormalizedTrustMatrix es (collect_nodes es) (build_index (collect_nodes es)) = Some C
           \<and> pretrust_vector (length (collect_nodes es)) (build_index (collect_nodes es)) pt = Some p
           \<and> sub_stochastic (length (collect_nodes es)) C
           \<and> (no_overflow es \<longrightarrow> row_stochastic (length (collect_nodes es)) C)
           \<and> length p = length (collect_nodes es)
           \<and> (\<forall>x \<in> set p. 0 \<le> x)
           \<and> iterate cfg (length (collect_nodes es)) C p p 0 = (t, its, conv)
           \<and> compute cfg es pt
               = Some \<lparr>scores = package (collect_nodes es) t, iterations = its, converged = conv\<rparr>"
proof -
  let ?ns = "collect_nodes es"
  have d: "distinct ?ns" by (rule distinct_collect_nodes)
  have ne: "?ns \<noteq> []" using assms by (simp add: collect_nodes_Nil_iff)
  obtain C where C: "buildNormalizedTrustMatrix es ?ns (build_index ?ns) = Some C"
    using buildNormalizedTrustMatrix_Some [OF d] by blast
  obtain p where p: "pretrust_vector (length ?ns) (build_index ?ns) pt = Some p"
      "length p = length ?ns"
    using pretrust_vector_total [OF d ne] by blast
  obtain t its conv where it: "iterate cfg (length ?ns) C p p 0 = (t, its, conv)"
    by (cases "iterate cfg (length ?ns) C p p 0") auto
  have r: "compute cfg es pt = Some \<lparr>scores = package ?ns t, iterations = its, converged = conv\<rparr>"
    using ne C p it by (simp add: compute_def)
  have sub: "sub_stochastic (length ?ns) C"
    using d C by (rule sub_stochastic_build)
  have st: "row_stochastic (length ?ns) C" if "no_overflow es"
    using that row_stochastic_build [OF d C] no_overflow_iff [OF d refl] by blast
  have nn: "\<forall>x \<in> set p. 0 \<le> x"
    using d ne p(1) by (rule pretrust_vector_nonneg)
  from C p sub st nn it r show ?thesis
    by blast
qed



subsection \<open>The loop, iterate by iterate\<close>

lemma iterate_k_Suc: "iterate_k n C p a (Suc k) = propagate n C p a (iterate_k n C p a k)"
  by (simp add: iterate_k_def)

lemma iterate_k_0: "iterate_k n C p a 0 = p"
  by (simp add: iterate_k_def)



text \<open>The loop stops at the first iterate whose distance to the previous one is small.\<close>

lemma iterate_converges_at:
  assumes "real k < maxIterations cfg"
    and "l1_diff n (iterate_k n C p (decayFactor cfg) (Suc k)) (iterate_k n C p (decayFactor cfg) k)
           < convergenceThreshold cfg"
  shows "its \<le> k \<Longrightarrow>
         (\<forall>i. its \<le> i \<and> i < k \<longrightarrow>
            \<not> l1_diff n (iterate_k n C p (decayFactor cfg) (Suc i))
                        (iterate_k n C p (decayFactor cfg) i) < convergenceThreshold cfg) \<Longrightarrow>
         iterate cfg n C p (iterate_k n C p (decayFactor cfg) its) its
           = (iterate_k n C p (decayFactor cfg) (Suc k), Suc k, True)"
proof (induction "k - its" arbitrary: its)
  case 0
  then have "its = k" by simp
  with assms show ?case
    by (simp add: iterate.simps [of cfg n C p _ k] iterate_k_Suc)
next
  case (Suc d)
  then have lt: "its < k" by simp
  then have "real its < maxIterations cfg"
    using assms(1) by simp
  moreover have "\<not> l1_diff n (iterate_k n C p (decayFactor cfg) (Suc its))
                        (iterate_k n C p (decayFactor cfg) its) < convergenceThreshold cfg"
    using Suc.prems(2) lt by simp
  ultimately have "iterate cfg n C p (iterate_k n C p (decayFactor cfg) its) its
      = iterate cfg n C p (iterate_k n C p (decayFactor cfg) (Suc its)) (Suc its)"
    by (simp add: iterate.simps [of cfg n C p _ its] iterate_k_Suc)
  moreover have "iterate cfg n C p (iterate_k n C p (decayFactor cfg) (Suc its)) (Suc its)
      = (iterate_k n C p (decayFactor cfg) (Suc k), Suc k, True)"
    using Suc.hyps(2) lt Suc.prems(2) by (intro Suc.hyps(1)) simp_all
  ultimately show ?case by simp
qed

text \<open>Without such an iterate the loop runs until the counter reaches the maximum.\<close>

lemma iterate_exhausts:
  assumes "\<forall>i. real i < maxIterations cfg \<longrightarrow>
            \<not> l1_diff n (iterate_k n C p (decayFactor cfg) (Suc i))
                        (iterate_k n C p (decayFactor cfg) i) < convergenceThreshold cfg"
  shows "its \<le> nat \<lceil>maxIterations cfg\<rceil> \<Longrightarrow>
         iterate cfg n C p (iterate_k n C p (decayFactor cfg) its) its
           = (iterate_k n C p (decayFactor cfg) (nat \<lceil>maxIterations cfg\<rceil>),
              nat \<lceil>maxIterations cfg\<rceil>, False)"
proof (induction "nat \<lceil>maxIterations cfg\<rceil> - its" arbitrary: its)
  case 0
  then have eq: "its = nat \<lceil>maxIterations cfg\<rceil>" by linarith
  then have "\<not> real its < maxIterations cfg"
    by linarith
  then have "iterate cfg n C p t its = (t, its, False)" for t
    by (simp add: iterate.simps [of cfg n C p t its])
  then show ?case
    by (simp flip: eq)
next
  case (Suc d)
  then have "its < nat \<lceil>maxIterations cfg\<rceil>" by simp
  then have lt: "real its < maxIterations cfg"
    by linarith
  with assms have "\<not> l1_diff n (iterate_k n C p (decayFactor cfg) (Suc its))
                        (iterate_k n C p (decayFactor cfg) its) < convergenceThreshold cfg"
    by simp
  with lt have "iterate cfg n C p (iterate_k n C p (decayFactor cfg) its) its
      = iterate cfg n C p (iterate_k n C p (decayFactor cfg) (Suc its)) (Suc its)"
    by (simp add: iterate.simps [of cfg n C p _ its] iterate_k_Suc)
  moreover have "iterate cfg n C p (iterate_k n C p (decayFactor cfg) (Suc its)) (Suc its)
      = (iterate_k n C p (decayFactor cfg) (nat \<lceil>maxIterations cfg\<rceil>),
              nat \<lceil>maxIterations cfg\<rceil>, False)"
    using Suc.hyps(2) \<open>its < nat \<lceil>maxIterations cfg\<rceil>\<close> by (intro Suc.hyps(1)) simp_all
  ultimately show ?case by simp
qed

text \<open>The counter never passes the ceiling of the maximum.\<close>

lemma iterate_count:
  "iterate cfg n C p t its = (t', its', c) \<Longrightarrow>
     its \<le> its' \<and> its' \<le> max its (nat \<lceil>maxIterations cfg\<rceil>)"
proof (induction cfg n C p t its rule: iterate.induct)
  case (1 cfg n C p t its)
  show ?case
  proof (cases "real its < maxIterations cfg")
    case False
    with "1.prems" show ?thesis
      by (simp add: iterate.simps [of cfg n C p t its])
  next
    case True
    then have bound: "its + 1 \<le> nat \<lceil>maxIterations cfg\<rceil>"
      by linarith
    let ?tNew = "propagate n C p (decayFactor cfg) t"
    show ?thesis
    proof (cases "l1_diff n ?tNew t < convergenceThreshold cfg")
      case conv: True
      with True "1.prems" bound show ?thesis
        by (auto simp: iterate.simps [of cfg n C p t its])
    next
      case nconv: False
      with True "1.prems" have "iterate cfg n C p ?tNew (its + 1) = (t', its', c)"
        by (simp add: iterate.simps [of cfg n C p t its])
      with "1.IH" [OF True refl refl nconv] bound show ?thesis
        by auto
    qed
  qed
qed

section \<open>Facts about the path finder\<close>

subsection \<open>The shortest-path query\<close>

lemma walk_end_Cons: "walk_end a (e # w) = walk_end (to_addr e) w"
  by (simp add: walk_end_def)


lemma walks_trust_path:
  "(\<exists>w \<in> set (walks g k a). walk_end a w = b) \<longleftrightarrow> trust_path g a k b"
proof (induction k arbitrary: a)
  case 0
  show ?case by (simp add: walk_end_def)
next
  case (Suc k)
  have "(\<exists>w \<in> set (walks g (Suc k) a). walk_end a w = b)
          \<longleftrightarrow> (\<exists>e \<in> set g. from_addr e = a \<and> (\<exists>w \<in> set (walks g k (to_addr e)). walk_end (to_addr e) w = b))"
    by (auto simp: walk_end_Cons)
  with Suc show ?case by simp
qed

lemma first_None_iff: "(case xs of [] \<Rightarrow> None | x # _ \<Rightarrow> Some x) = None \<longleftrightarrow> xs = []"
  by (cases xs) simp_all


lemma Nil_iff_no_member: "xs = [] \<longleftrightarrow> (\<forall>w. w \<notin> set xs)"
  by (cases xs) auto

lemma found_walks:
  "w \<in> set (concat (map (\<lambda>k. filter (\<lambda>w. walk_end a w = b) (walks g k a)) [1..<Suc maxHops]))
     \<longleftrightarrow> (\<exists>k. 1 \<le> k \<and> k \<le> maxHops \<and> w \<in> set (walks g k a) \<and> walk_end a w = b)"
proof -
  have "set [1..<Suc maxHops] = {k. 1 \<le> k \<and> k \<le> maxHops}"
    by (auto simp del: upt_Suc)
  then show ?thesis
    by (auto simp del: upt_Suc)
qed

lemma shortest_walk_None_iff:
  "shortest_walk g a b maxHops = None
     \<longleftrightarrow> \<not> (\<exists>k. 1 \<le> k \<and> k \<le> maxHops \<and> trust_path g a k b)"
proof -
  let ?found = "concat (map (\<lambda>k. filter (\<lambda>w. walk_end a w = b) (walks g k a)) [1..<Suc maxHops])"
  have "shortest_walk g a b maxHops = None \<longleftrightarrow> ?found = []"
    unfolding shortest_walk_def by (rule first_None_iff)
  also have "\<dots> \<longleftrightarrow> (\<forall>w. w \<notin> set ?found)"
    by (rule Nil_iff_no_member)
  also have "\<dots> \<longleftrightarrow> \<not> (\<exists>k. 1 \<le> k \<and> k \<le> maxHops \<and> (\<exists>w \<in> set (walks g k a). walk_end a w = b))"
    using found_walks [of _ a b g maxHops] by blast
  also have "\<dots> \<longleftrightarrow> \<not> (\<exists>k. 1 \<le> k \<and> k \<le> maxHops \<and> trust_path g a k b)"
    by (simp only: walks_trust_path)
  finally show ?thesis .
qed


lemma shortestPath_query_empty_iff:
  "shortestPath_query g a b maxHops = []
     \<longleftrightarrow> \<not> (\<exists>k. 1 \<le> k \<and> k \<le> maxHops \<and> trust_path g a k b)"
proof (cases "shortest_walk g a b maxHops")
  case None
  with shortest_walk_None_iff [of g a b maxHops] show ?thesis
    by (simp add: shortestPath_query_def)
next
  case (Some w)
  with shortest_walk_None_iff [of g a b maxHops] show ?thesis
    by (simp add: shortestPath_query_def)
qed


subsection \<open>findTrustPath and findPath\<close>

lemma findTrustPath_no_record:
  "session (toLowerCase from) (toLowerCase to) maxHops = []
     \<Longrightarrow> findTrustPath (Some session) from to maxHops = Inr None"
  by (simp add: findTrustPath_def getSession_def)

lemma findPath_path_None:
  assumes "findTrustPath graph from to maxHops = Inr None"
  shows "\<exists>ex. findPath graph from to maxHops = Inr \<lparr>path = None, explanation = ex\<rparr>"
  using assms by (simp add: findPath_def)

lemma findPath_same:
  assumes "toLowerCase from = toLowerCase to"
  shows "findPath graph from to maxHops
           = Inr \<lparr>path = None,
                  explanation = (if isValidAddress from \<and> isValidAddress to then SameAddresses
                                 else InvalidAddresses)\<rparr>"
  using assms by (simp add: findPath_def)



section \<open>Properties of the specification\<close>

subsection \<open>C1\<close>




subsection \<open>C2\<close>




subsection \<open>C3\<close>

text \<open>
  C3. On an edge list with at least one node, with \<open>C\<close> the transition matrix, \<open>p\<close> the
  pre-trust vector and \<open>a\<close> the decay factor: the iterates start at \<open>t\<^sub>0 = p\<close> and
  satisfy \<open>t\<^sub>k\<^sub>+\<^sub>1[j] = (1 - a) * p[j] + a * \<Sum>\<^sub>i C[i][j] * t\<^sub>k[i]\<close>; the distance
  computed after each iteration is the L1 norm of \<open>t\<^sub>k\<^sub>+\<^sub>1 - t\<^sub>k\<close>, taken against the
  iterate just before; \<open>compute\<close> returns \<open>t\<^sub>k\<^sub>+\<^sub>1\<close> with \<open>k + 1\<close> iterations and
  \<open>converged = true\<close> for the first \<open>k\<close> below the maximum whose distance is under the
  threshold, and when there is none it returns the iterate reached after the maximum
  number of iterations with \<open>converged = false\<close>. A configuration without overrides has
  decay factor 0.85, threshold \<open>10\<^sup>-\<^sup>4\<close> and at most 50 iterations.
\<close>

theorem power_iteration:
  assumes "es \<noteq> []"
  shows "\<exists>C p.
           buildNormalizedTrustMatrix es (collect_nodes es) (build_index (collect_nodes es)) = Some C
         \<and> pretrust_vector (length (collect_nodes es)) (build_index (collect_nodes es)) preTrusted
             = Some p
         \<and> iterate_k (length (collect_nodes es)) C p (decayFactor cfg) 0 = p
         \<and> (\<forall>k. \<forall>j<length (collect_nodes es).
               iterate_k (length (collect_nodes es)) C p (decayFactor cfg) (Suc k) ! j
                 = (1 - decayFactor cfg) * p ! j
                   + decayFactor cfg
                     * (\<Sum>i<length (collect_nodes es).
                          C ! i ! j * iterate_k (length (collect_nodes es)) C p (decayFactor cfg) k ! i))
         \<and> (\<forall>x y. l1_diff (length (collect_nodes es)) x y
                     = (\<Sum>i<length (collect_nodes es). \<bar>x ! i - y ! i\<bar>))
         \<and> (\<forall>k. real k < maxIterations cfg
                 \<and> l1_diff (length (collect_nodes es))
                      (iterate_k (length (collect_nodes es)) C p (decayFactor cfg) (Suc k))
                      (iterate_k (length (collect_nodes es)) C p (decayFactor cfg) k)
                    < convergenceThreshold cfg
                 \<and> (\<forall>i<k. \<not> l1_diff (length (collect_nodes es))
                      (iterate_k (length (collect_nodes es)) C p (decayFactor cfg) (Suc i))
                      (iterate_k (length (collect_nodes es)) C p (decayFactor cfg) i)
                    < convergenceThreshold cfg)
               \<longrightarrow> compute cfg es preTrusted
                     = Some \<lparr>scores = package (collect_nodes es)
                                        (iterate_k (length (collect_nodes es)) C p (decayFactor cfg) (Suc k)),
                             iterations = Suc k, converged = True\<rparr>)
         \<and> ((\<forall>i. real i < maxIterations cfg \<longrightarrow>
                  \<not> l1_diff (length (collect_nodes es))
                      (iterate_k (length (collect_nodes es)) C p (decayFactor cfg) (Suc i))
                      (iterate_k (length (collect_nodes es)) C p (decayFactor cfg) i)
                    < convergenceThreshold cfg)
               \<longrightarrow> compute cfg es preTrusted
                     = Some \<lparr>scores = package (collect_nodes es)
                                        (iterate_k (length (collect_nodes es)) C p (decayFactor cfg)
                                           (nat \<lceil>maxIterations cfg\<rceil>)),
                             iterations = nat \<lceil>maxIterations cfg\<rceil>, converged = False\<rparr>)
         \<and> (\<forall>m. maxIterations cfg = real m \<longrightarrow> nat \<lceil>maxIterations cfg\<rceil> = m)
         \<and> decayFactor (new_engine no_overrides) = 85 / 100
         \<and> convergenceThreshold (new_engine no_overrides) = 1 / 10000
         \<and> maxIterations (new_engine no_overrides) = 50"
proof -
  let ?ns = "collect_nodes es"
  let ?n = "length ?ns"
  let ?a = "decayFactor cfg"
  from compute_nonempty [OF assms, of preTrusted cfg] obtain C p t its conv where
    C: "buildNormalizedTrustMatrix es ?ns (build_index ?ns) = Some C"
    and p: "pretrust_vector ?n (build_index ?ns) preTrusted = Some p"
    and it: "iterate cfg ?n C p p 0 = (t, its, conv)"
    and r: "compute cfg es preTrusted
              = Some \<lparr>scores = package ?ns t, iterations = its, converged = conv\<rparr>"
    by blast
  let ?T = "iterate_k ?n C p ?a"
  let ?small = "\<lambda>i. l1_diff ?n (?T (Suc i)) (?T i) < convergenceThreshold cfg"
  have start: "?T 0 = p"
    by (rule iterate_k_0)
  have formula: "?T (Suc k) ! j = (1 - ?a) * p ! j + ?a * (\<Sum>i<?n. C ! i ! j * ?T k ! i)"
    if "j < ?n" for k j
    using that by (simp add: iterate_k_Suc propagate_nth)
  have norm: "l1_diff ?n x y = (\<Sum>i<?n. \<bar>x ! i - y ! i\<bar>)" for x y
    by (rule l1_diff_sum)
  have stop: "compute cfg es preTrusted
                = Some \<lparr>scores = package ?ns (?T (Suc k)), iterations = Suc k, converged = True\<rparr>"
    if "real k < maxIterations cfg" "?small k" "\<forall>i<k. \<not> ?small i" for k
  proof -
    have "iterate cfg ?n C p (?T 0) 0 = (?T (Suc k), Suc k, True)"
      using that by (intro iterate_converges_at) simp_all
    with it r show ?thesis
      by (simp add: start)
  qed
  have exhaust: "compute cfg es preTrusted
                = Some \<lparr>scores = package ?ns (?T (nat \<lceil>maxIterations cfg\<rceil>)),
                        iterations = nat \<lceil>maxIterations cfg\<rceil>, converged = False\<rparr>"
    if "\<forall>i. real i < maxIterations cfg \<longrightarrow> \<not> ?small i"
  proof -
    have "iterate cfg ?n C p (?T 0) 0
            = (?T (nat \<lceil>maxIterations cfg\<rceil>), nat \<lceil>maxIterations cfg\<rceil>, False)"
      using that by (intro iterate_exhausts) simp_all
    with it r show ?thesis
      by (simp add: start)
  qed
  have whole: "nat \<lceil>maxIterations cfg\<rceil> = m" if "maxIterations cfg = real m" for m
    using that by simp
  have defaults: "decayFactor (new_engine no_overrides) = 85 / 100"
    "convergenceThreshold (new_engine no_overrides) = 1 / 10000"
    "maxIterations (new_engine no_overrides) = 50"
    by (simp_all add: new_engine_def no_overrides_def DEFAULT_CONFIG_def)
  show ?thesis
    apply (intro exI [of _ C] exI [of _ p] conjI)
    using C p start formula norm stop exhaust whole defaults by blast+
qed

theorem power_iteration_witness:
  "[makeEdge ''A'' ''B'' 1, makeEdge ''B'' ''A'' 1] \<noteq> []
   \<and> compute (new_engine no_overrides) [makeEdge ''A'' ''B'' 1, makeEdge ''B'' ''A'' 1] []
       = Some \<lparr>scores = [(''A'', 1 / 2), (''B'', 1 / 2)], iterations = 1, converged = True\<rparr>
   \<and> [makeEdge ''A'' ''B'' 1] \<noteq> []
   \<and> compute (DEFAULT_CONFIG\<lparr>maxIterations := 2\<rparr>) [makeEdge ''A'' ''B'' 1] []
       = Some \<lparr>scores = [(''A'', 1209 / 3200), (''B'', 1991 / 3200)], iterations = 2,
               converged = False\<rparr>"
proof -
  let ?ns = "[''A'', ''B'']"
  let ?n = "length ?ns"
  txt \<open>The two-cycle converges at the first iteration.\<close>
  let ?es = "[makeEdge ''A'' ''B'' 1, makeEdge ''B'' ''A'' 1]"
  let ?cfg = "new_engine no_overrides"
  let ?C1 = "[[0, 1], [1, 0 :: real]]"
  let ?p1 = "[1 / 2, 1 / 2 :: real]"
  have ne: "?es \<noteq> []" by simp
  have cfg: "decayFactor ?cfg = 85 / 100" "convergenceThreshold ?cfg = 1 / 10000"
    "maxIterations ?cfg = 50"
    by (simp_all add: new_engine_def no_overrides_def DEFAULT_CONFIG_def)
  have ns: "collect_nodes ?es = ?ns" by code_simp
  have bm: "buildNormalizedTrustMatrix ?es ?ns (build_index ?ns) = Some ?C1" by code_simp
  have pv: "pretrust_vector ?n (build_index ?ns) [] = Some ?p1" by code_simp
  have small: "l1_diff ?n (iterate_k ?n ?C1 ?p1 (85 / 100) (Suc 0)) (iterate_k ?n ?C1 ?p1 (85 / 100) 0)
                 < 1 / 10000"
    by code_simp
  have pk: "package ?ns (iterate_k ?n ?C1 ?p1 (85 / 100) (Suc 0)) = [(''A'', 1 / 2), (''B'', 1 / 2)]"
    by code_simp
  from power_iteration [OF ne, of "[]" ?cfg] obtain C p where
    C: "buildNormalizedTrustMatrix ?es ?ns (build_index ?ns) = Some C"
    and p: "pretrust_vector ?n (build_index ?ns) [] = Some p"
    and stop: "\<forall>k. real k < maxIterations ?cfg
                 \<and> l1_diff ?n (iterate_k ?n C p (decayFactor ?cfg) (Suc k))
                      (iterate_k ?n C p (decayFactor ?cfg) k) < convergenceThreshold ?cfg
                 \<and> (\<forall>i<k. \<not> l1_diff ?n (iterate_k ?n C p (decayFactor ?cfg) (Suc i))
                      (iterate_k ?n C p (decayFactor ?cfg) i) < convergenceThreshold ?cfg)
               \<longrightarrow> compute ?cfg ?es []
                     = Some \<lparr>scores = package ?ns (iterate_k ?n C p (decayFactor ?cfg) (Suc k)),
                             iterations = Suc k, converged = True\<rparr>"
    unfolding ns by blast
  have Cp: "C = ?C1" "p = ?p1"
    using C p bm pv by simp_all
  have run1: "compute ?cfg ?es []
      = Some \<lparr>scores = [(''A'', 1 / 2), (''B'', 1 / 2)], iterations = 1, converged = True\<rparr>"
    using stop [rule_format, of 0] small pk unfolding Cp cfg by simp
  txt \<open>The single edge does not converge within two iterations.\<close>
  let ?es' = "[makeEdge ''A'' ''B'' 1]"
  let ?cfg' = "DEFAULT_CONFIG\<lparr>maxIterations := 2\<rparr>"
  let ?C2 = "[[0, 1], [1 / 2, 1 / 2 :: real]]"
  have ne': "?es' \<noteq> []" by simp
  have cfg': "decayFactor ?cfg' = 85 / 100" "convergenceThreshold ?cfg' = 1 / 10000"
    "maxIterations ?cfg' = 2"
    by (simp_all add: DEFAULT_CONFIG_def)
  have ns': "collect_nodes ?es' = ?ns" by code_simp
  have bm': "buildNormalizedTrustMatrix ?es' ?ns (build_index ?ns) = Some ?C2" by code_simp
  have large: "\<not> l1_diff ?n (iterate_k ?n ?C2 ?p1 (85 / 100) (Suc 0)) (iterate_k ?n ?C2 ?p1 (85 / 100) 0)
                 < 1 / 10000"
    "\<not> l1_diff ?n (iterate_k ?n ?C2 ?p1 (85 / 100) (Suc (Suc 0)))
          (iterate_k ?n ?C2 ?p1 (85 / 100) (Suc 0)) < 1 / 10000"
    by code_simp+
  have pk': "package ?ns (iterate_k ?n ?C2 ?p1 (85 / 100) (Suc (Suc 0)))
               = [(''A'', 1209 / 3200), (''B'', 1991 / 3200)]"
    by code_simp
  from power_iteration [OF ne', of "[]" ?cfg'] obtain C' p' where
    C': "buildNormalizedTrustMatrix ?es' ?ns (build_index ?ns) = Some C'"
    and p': "pretrust_vector ?n (build_index ?ns) [] = Some p'"
    and exhaust: "(\<forall>i. real i < maxIterations ?cfg' \<longrightarrow>
                  \<not> l1_diff ?n (iterate_k ?n C' p' (decayFactor ?cfg') (Suc i))
                      (iterate_k ?n C' p' (decayFactor ?cfg') i) < convergenceThreshold ?cfg')
               \<longrightarrow> compute ?cfg' ?es' []
                     = Some \<lparr>scores = package ?ns (iterate_k ?n C' p' (decayFactor ?cfg')
                                           (nat \<lceil>maxIterations ?cfg'\<rceil>)),
                             iterations = nat \<lceil>maxIterations ?cfg'\<rceil>, converged = False\<rparr>"
    unfolding ns' by blast
  have Cp': "C' = ?C2" "p' = ?p1"
    using C' p' bm' pv by simp_all
  have never: "\<not> l1_diff ?n (iterate_k ?n ?C2 ?p1 (85 / 100) (Suc i))
                      (iterate_k ?n ?C2 ?p1 (85 / 100) i) < 1 / 10000"
    if "real i < 2" for i
  proof -
    from that have "i = 0 \<or> i = Suc 0" by auto
    with large show ?thesis by auto
  qed
  have two: "nat \<lceil>2 :: real\<rceil> = Suc (Suc 0)"
    by simp
  have run2: "compute ?cfg' ?es' []
      = Some \<lparr>scores = [(''A'', 1209 / 3200), (''B'', 1991 / 3200)], iterations = 2,
               converged = False\<rparr>"
    using exhaust never pk' unfolding Cp' cfg' two by simp
  from ne run1 ne' run2 show ?thesis
    by simp
qed

subsection \<open>C4\<close>

text \<open>
  C4. On the empty edge list, and on every edge list whose node set is empty (which is
  the empty list only), \<open>compute\<close> returns exactly the empty score map, zero iterations
  and \<open>converged = true\<close>. The result is there (\<open>Some\<close>), so no division by zero took
  place; the guard is what prevents one, since building the uniform pre-trust vector
  for zero nodes divides by zero (last conjunct).
\<close>

theorem compute_empty:
  "compute cfg [] preTrusted = Some \<lparr>scores = [], iterations = 0, converged = True\<rparr>
   \<and> (collect_nodes es = [] \<longrightarrow>
        compute cfg es preTrusted = Some \<lparr>scores = [], iterations = 0, converged = True\<rparr>)
   \<and> (collect_nodes es = [] \<longleftrightarrow> es = [])
   \<and> pretrust_vector 0 (build_index []) [] = None"
  by (simp add: compute_def collect_nodes_Nil_iff pretrust_vector_def js_div_def)

theorem compute_empty_witness:
  "collect_nodes [] = []
   \<and> compute DEFAULT_CONFIG [] [''0xab''] = Some \<lparr>scores = [], iterations = 0, converged = True\<rparr>"
  using compute_empty [of DEFAULT_CONFIG "[''0xab'']" "[]"] by simp

subsection \<open>C5\<close>

text \<open>
  C5. \<open>scoreFor result x\<close> is to return the value stored for \<open>x\<close> in the scores when
  \<open>x\<close> is present. The program does not: \<open>compute\<close> stores each score under the
  address as the edges spell it, and \<open>scoreFor\<close> looks up the lower-cased address. On
  the two-cycle between \<open>A\<close> and \<open>B\<close> the result stores \<open>1/2\<close> for \<open>A\<close>, and
  \<open>scoreFor\<close> answers \<open>0\<close> for \<open>A\<close>.
\<close>

theorem scoreFor_stored_key:
  "compute DEFAULT_CONFIG [makeEdge ''A'' ''B'' 1, makeEdge ''B'' ''A'' 1] []
     = Some \<lparr>scores = [(''A'', 1 / 2), (''B'', 1 / 2)], iterations = 1, converged = True\<rparr>
   \<and> map_of [(''A'', 1 / 2 :: real), (''B'', 1 / 2)] ''A'' = Some (1 / 2)
   \<and> scoreFor \<lparr>scores = [(''A'', 1 / 2), (''B'', 1 / 2)], iterations = 1, converged = True\<rparr> ''A'' = 0"
  by code_simp

subsection \<open>C6\<close>

text \<open>
  C6. A query whose two addresses are equal up to case gets no path, and gets it before
  the graph is asked anything: the answer is the same whatever the graph service is,
  even one that is not connected. For a graph \<open>g\<close> held by the database and any pair of
  addresses without a directed trust path of at least one and at most \<open>maxHops\<close> edges
  between them, \<open>findPath\<close> returns the null path and no error; so it does when
  \<open>maxHops\<close> is below the length \<open>d\<close> of the shortest directed path.
\<close>

theorem findPath_no_path:
  "(toLowerCase from = toLowerCase to \<longrightarrow>
      (\<exists>ex. findPath graph from to maxHops = Inr \<lparr>path = None, explanation = ex\<rparr>)
      \<and> findPath graph from to maxHops = findPath None from to maxHops)
   \<and> (\<not> (\<exists>k. 1 \<le> k \<and> k \<le> maxHops \<and> trust_path g (toLowerCase from) k (toLowerCase to)) \<longrightarrow>
        (\<exists>ex. findPath (Some (shortestPath_query g)) from to maxHops
                 = Inr \<lparr>path = None, explanation = ex\<rparr>))
   \<and> (trust_path g (toLowerCase from) d (toLowerCase to)
        \<and> (\<forall>k<d. \<not> trust_path g (toLowerCase from) k (toLowerCase to))
        \<and> maxHops < d \<longrightarrow>
        (\<exists>ex. findPath (Some (shortestPath_query g)) from to maxHops
                 = Inr \<lparr>path = None, explanation = ex\<rparr>))"
proof -
  let ?a = "toLowerCase from" and ?b = "toLowerCase to"
  have same: "(\<exists>ex. findPath graph from to maxHops = Inr \<lparr>path = None, explanation = ex\<rparr>)
      \<and> findPath graph from to maxHops = findPath None from to maxHops"
    if "?a = ?b"
    using that by (simp add: findPath_same)
  have none: "\<exists>ex. findPath (Some (shortestPath_query g)) from to maxHops
                 = Inr \<lparr>path = None, explanation = ex\<rparr>"
    if "\<not> (\<exists>k. 1 \<le> k \<and> k \<le> maxHops \<and> trust_path g ?a k ?b)"
  proof -
    from that have "shortestPath_query g ?a ?b maxHops = []"
      using shortestPath_query_empty_iff [of g ?a ?b maxHops] by blast
    then have "findTrustPath (Some (shortestPath_query g)) from to maxHops = Inr None"
      by (rule findTrustPath_no_record)
    then show ?thesis
      by (rule findPath_path_None)
  qed
  have below: "\<exists>ex. findPath (Some (shortestPath_query g)) from to maxHops
                 = Inr \<lparr>path = None, explanation = ex\<rparr>"
    if "trust_path g ?a d ?b" "\<forall>k<d. \<not> trust_path g ?a k ?b" "maxHops < d"
  proof -
    from that(2,3) have "\<not> (\<exists>k. 1 \<le> k \<and> k \<le> maxHops \<and> trust_path g ?a k ?b)"
      by auto
    then show ?thesis by (rule none)
  qed
  from same none below show ?thesis
    by blast
qed

theorem findPath_no_path_witness:
  "toLowerCase ''0x742d35Cc6634C0532925a3b844Bc9e7595f2bD18''
     = toLowerCase ''0x742D35CC6634C0532925A3B844BC9E7595F2BD18''
   \<and> findPath None ''0x742d35Cc6634C0532925a3b844Bc9e7595f2bD18''
        ''0x742D35CC6634C0532925A3B844BC9E7595F2BD18'' 5
       = Inr \<lparr>path = None, explanation = SameAddresses\<rparr>
   \<and> trust_path
        [makeEdge ''0x00000000000000000000000000000000000000aa''
                  ''0x00000000000000000000000000000000000000bb'' 1,
         makeEdge ''0x00000000000000000000000000000000000000bb''
                  ''0x00000000000000000000000000000000000000cc'' 1]
        ''0x00000000000000000000000000000000000000aa'' 2
        ''0x00000000000000000000000000000000000000cc''
   \<and> (\<exists>ex. findPath (Some (shortestPath_query
        [makeEdge ''0x00000000000000000000000000000000000000aa''
                  ''0x00000000000000000000000000000000000000bb'' 1,
         makeEdge ''0x00000000000000000000000000000000000000bb''
                  ''0x00000000000000000000000000000000000000cc'' 1]))
        ''0x00000000000000000000000000000000000000AA''
        ''0x00000000000000000000000000000000000000CC'' 1
       = Inr \<lparr>path = None, explanation = ex\<rparr>)
   \<and> (\<exists>ex. findPath (Some (shortestPath_query
        [makeEdge ''0x00000000000000000000000000000000000000aa''
                  ''0x00000000000000000000000000000000000000bb'' 1,
         makeEdge ''0x00000000000000000000000000000000000000bb''
                  ''0x00000000000000000000000000000000000000cc'' 1]))
        ''0x00000000000000000000000000000000000000CC''
        ''0x00000000000000000000000000000000000000AA'' 5
       = Inr \<lparr>path = None, explanation = ex\<rparr>)
   \<and> (case findPath (Some (shortestPath_query
        [makeEdge ''0x00000000000000000000000000000000000000aa''
                  ''0x00000000000000000000000000000000000000bb'' 1,
         makeEdge ''0x00000000000000000000000000000000000000bb''
                  ''0x00000000000000000000000000000000000000cc'' 1]))
        ''0x00000000000000000000000000000000000000AA''
        ''0x00000000000000000000000000000000000000CC'' 2
      of Inl e \<Rightarrow> False | Inr r \<Rightarrow> path r \<noteq> None)"
proof -
  let ?x = "''0x742d35Cc6634C0532925a3b844Bc9e7595f2bD18''"
  let ?y = "''0x742D35CC6634C0532925A3B844BC9E7595F2BD18''"
  let ?A = "''0x00000000000000000000000000000000000000AA''"
  let ?C = "''0x00000000000000000000000000000000000000CC''"
  let ?a = "''0x00000000000000000000000000000000000000aa''"
  let ?b = "''0x00000000000000000000000000000000000000bb''"
  let ?c = "''0x00000000000000000000000000000000000000cc''"
  let ?g = "[makeEdge ?a ?b 1, makeEdge ?b ?c 1]"
  have same: "toLowerCase ?x = toLowerCase ?y"
    by code_simp
  have rejected: "findPath None ?x ?y 5 = Inr \<lparr>path = None, explanation = SameAddresses\<rparr>"
    by code_simp
  have lower: "toLowerCase ?A = ?a" "toLowerCase ?C = ?c"
    by code_simp+
  have dist: "trust_path ?g ?a 2 ?c" "\<forall>k<2. \<not> trust_path ?g ?a k ?c"
    by code_simp+
  have backwards: "\<not> (\<exists>k. 1 \<le> k \<and> k \<le> 5 \<and> trust_path ?g ?c k ?a)"
  proof -
    have "\<not> trust_path ?g ?c (Suc k) ?a" for k
      by (simp add: makeEdge_def)
    then show ?thesis
      by (metis One_nat_def Suc_le_D)
  qed
  from findPath_no_path [of ?A ?C "Some (shortestPath_query ?g)" 1 ?g 2] dist
  have short: "\<exists>ex. findPath (Some (shortestPath_query ?g)) ?A ?C 1
                       = Inr \<lparr>path = None, explanation = ex\<rparr>"
    by (simp add: lower)
  from findPath_no_path [of ?C ?A "Some (shortestPath_query ?g)" 5 ?g 0] backwards
  have none: "\<exists>ex. findPath (Some (shortestPath_query ?g)) ?C ?A 5
                       = Inr \<lparr>path = None, explanation = ex\<rparr>"
    by (simp add: lower)
  have found: "case findPath (Some (shortestPath_query ?g)) ?A ?C 2
                 of Inl e \<Rightarrow> False | Inr r \<Rightarrow> path r \<noteq> None"
    by code_simp
  from findPath_no_path [of ?x ?y None 5 ?g 0] same rejected dist(1) short none found
  show ?thesis
    by simp
qed

subsection \<open>C7\<close>



subsection \<open>C8\<close>

text \<open>
  C8. The trust level of a final score \<open>s\<close>: unknown below 10, suspicious from 10 and
  below 30, low from 30 and below 50, moderate from 50 and below 70, high from 70 and
  below 85, very high from 85 on; every lower bound belongs to its tier.
\<close>

theorem scoreToLevel_tiers:
  "(s < 10 \<longrightarrow> scoreToLevel s = unknown)
   \<and> (10 \<le> s \<and> s < 30 \<longrightarrow> scoreToLevel s = suspicious)
   \<and> (30 \<le> s \<and> s < 50 \<longrightarrow> scoreToLevel s = low)
   \<and> (50 \<le> s \<and> s < 70 \<longrightarrow> scoreToLevel s = moderate)
   \<and> (70 \<le> s \<and> s < 85 \<longrightarrow> scoreToLevel s = high)
   \<and> (85 \<le> s \<longrightarrow> scoreToLevel s = very_high)"
  by (simp add: scoreToLevel_def)

theorem scoreToLevel_tiers_witness:
  "scoreToLevel 0 = unknown \<and> scoreToLevel 10 = suspicious \<and> scoreToLevel 30 = low
   \<and> scoreToLevel 50 = moderate \<and> scoreToLevel 70 = high \<and> scoreToLevel 85 = very_high"
  using scoreToLevel_tiers [of 0] scoreToLevel_tiers [of 10] scoreToLevel_tiers [of 30]
    scoreToLevel_tiers [of 50] scoreToLevel_tiers [of 70] scoreToLevel_tiers [of 85]
  by simp

subsection \<open>C9\<close>

text \<open>
  C9, as stated: the returned \<open>iterations\<close> field is at most \<open>maxIterations\<close>, for every
  finite \<open>maxIterations\<close>. The bound is a number, compared with the counter by \<open><\<close>
  before each iteration: with \<open>maxIterations = 2.5\<close> the loop runs a third time, since
  \<open>2 < 2.5\<close>, and returns \<open>iterations = 3\<close>.
\<close>

theorem iterations_bound_counterexample:
  "compute (DEFAULT_CONFIG\<lparr>maxIterations := 5 / 2\<rparr>) [makeEdge ''A'' ''B'' 1] []
     = Some \<lparr>scores = [(''A'', 43447 / 128000), (''B'', 84553 / 128000)],
             iterations = 3, converged = False\<rparr>
   \<and> \<not> real 3 \<le> maxIterations (DEFAULT_CONFIG\<lparr>maxIterations := 5 / 2\<rparr>)"
  by code_simp

text \<open>
  C9, amended: for every edge list, pre-trusted set and configuration, \<open>compute\<close>
  terminates with a result; the loop runs at most \<open>\<lceil>maxIterations\<rceil>\<close> times (not at
  all when \<open>maxIterations \<le> 0\<close>), so the returned \<open>iterations\<close> field is below
  \<open>max(0, maxIterations) + 1\<close>, and it is at most \<open>maxIterations\<close> whenever that is a
  whole non-negative number.
\<close>

theorem compute_terminates:
  "\<exists>r. compute cfg es preTrusted = Some r
        \<and> iterations r \<le> nat \<lceil>maxIterations cfg\<rceil>
        \<and> real (iterations r) < max 0 (maxIterations cfg) + 1
        \<and> (\<forall>m. maxIterations cfg = real m \<longrightarrow> iterations r \<le> m)"
proof -
  have "\<exists>r. compute cfg es preTrusted = Some r \<and> iterations r \<le> nat \<lceil>maxIterations cfg\<rceil>"
  proof (cases "es = []")
    case True
    then show ?thesis by (simp add: compute_def collect_nodes_def)
  next
    case False
    from compute_nonempty [OF this, of preTrusted cfg] obtain C p t its conv where
      it: "iterate cfg (length (collect_nodes es)) C p p 0 = (t, its, conv)"
      and r: "compute cfg es preTrusted
               = Some \<lparr>scores = package (collect_nodes es) t, iterations = its, converged = conv\<rparr>"
      by blast
    from iterate_count [OF it] r show ?thesis by simp
  qed
  then obtain r where r: "compute cfg es preTrusted = Some r"
    "iterations r \<le> nat \<lceil>maxIterations cfg\<rceil>"
    by blast
  have "real (iterations r) < max 0 (maxIterations cfg) + 1"
    using r(2) by linarith
  moreover have "iterations r \<le> m" if "maxIterations cfg = real m" for m
    using r(2) that by simp
  ultimately show ?thesis
    using r by blast
qed

theorem compute_terminates_witness:
  "maxIterations DEFAULT_CONFIG = real 50
   \<and> (\<exists>r. compute DEFAULT_CONFIG [makeEdge ''A'' ''B'' 1] [''A''] = Some r \<and> iterations r \<le> 50)"
proof -
  have m: "maxIterations DEFAULT_CONFIG = real 50"
    by (simp add: DEFAULT_CONFIG_def)
  from compute_terminates [of DEFAULT_CONFIG "[makeEdge ''A'' ''B'' 1]" "[''A'']"] m
  show ?thesis by blast
qed

subsection \<open>C10\<close>




end
